theory Spec2Isabelle
  imports Main
begin

section \<open>Data model\<close>

text \<open>
  The live page keeps the Telegram feed in the React state \<open>telegramMsgs\<close>, an array of
  \<open>TelegramMsg\<close>. All four fields are strings in the source. The field \<open>id\<close> is
  written \<open>msg_id\<close> here (\<open>id\<close> is the identity function of HOL).
\<close>

record TelegramMsg =
  msg_id :: string
  msg_text :: string
  msg_senderName :: string
  msg_sentAt :: string

text \<open>
  What the server sends, by the REST endpoint and by the SignalR event alike:
  \<open>{ id?: number; text: string; senderName: string; sentAt: string }\<close>.
  An absent id is \<open>None\<close>; ids are whole numbers.
\<close>

record payload =
  p_id :: "int option"
  p_text :: string
  p_senderName :: string
  p_sentAt :: string

subsection \<open>\<open>String(n)\<close> on whole numbers\<close>

definition digit_char :: "nat \<Rightarrow> char" where
  "digit_char d =
     (if d = 0 then CHR ''0'' else if d = 1 then CHR ''1'' else if d = 2 then CHR ''2''
      else if d = 3 then CHR ''3'' else if d = 4 then CHR ''4'' else if d = 5 then CHR ''5''
      else if d = 6 then CHR ''6'' else if d = 7 then CHR ''7'' else if d = 8 then CHR ''8''
      else CHR ''9'')"

function String_nat :: "nat \<Rightarrow> string" where
  "String_nat n =
     (if n < 10 then [digit_char n] else String_nat (n div 10) @ [digit_char (n mod 10)])"
  by pat_completeness auto
termination
  by (relation "measure (\<lambda>n. n)") auto

declare String_nat.simps [simp del]

definition String_num :: "int \<Rightarrow> string" where
  "String_num i = (if i < 0 then CHR ''-'' # String_nat (nat (- i)) else String_nat (nat i))"

section \<open>The feed buffer (unnamed/part_000)\<close>

text \<open>
  The template literal of the poll path,
  \<open>`${m.sentAt}-${m.senderName}-${String(m.text).slice(0, 10)}`\<close>.
\<close>

definition composite_id :: "payload \<Rightarrow> string" where
  "composite_id m = p_sentAt m @ ''-'' @ p_senderName m @ ''-'' @ take 10 (p_text m)"

text \<open>
  \<open>String(m.id || composite)\<close>: the operator \<open>||\<close> takes the right operand when the left
  one is falsy, so an absent id and the id \<open>0\<close> both give the composite.
\<close>

definition poll_id :: "payload \<Rightarrow> string" where
  "poll_id m =
     (case p_id m of
        None \<Rightarrow> composite_id m
      | Some n \<Rightarrow> if n = 0 then composite_id m else String_num n)"

definition poll_msg :: "payload \<Rightarrow> TelegramMsg" where
  "poll_msg m =
     \<lparr>msg_id = poll_id m, msg_text = p_text m,
      msg_senderName = p_senderName m, msg_sentAt = p_sentAt m\<rparr>"

text \<open>\<open>xs.slice(-n)\<close> for \<open>n > 0\<close>: the last \<open>n\<close> elements, all of \<open>xs\<close> when it is shorter.\<close>

definition slice_last :: "nat \<Rightarrow> 'a list \<Rightarrow> 'a list" where
  "slice_last n xs = drop (length xs - n) xs"

text \<open>\<open>updated.length > 200 ? updated.slice(-200) : updated\<close>\<close>

definition keep200 :: "'a list \<Rightarrow> 'a list" where
  "keep200 updated = (if length updated > 200 then slice_last 200 updated else updated)"

text \<open>
  The updater of the poll tick. \<open>existingIds\<close> is built from \<open>prev\<close> alone; the fetched list
  is filtered against it and then mapped to \<open>TelegramMsg\<close>.
\<close>

definition existingIds :: "TelegramMsg list \<Rightarrow> string set" where
  "existingIds prev = set (map msg_id prev)"

definition newMsgs :: "TelegramMsg list \<Rightarrow> payload list \<Rightarrow> TelegramMsg list" where
  "newMsgs prev list = map poll_msg (filter (\<lambda>m. poll_id m \<notin> existingIds prev) list)"

definition poll_updater :: "payload list \<Rightarrow> TelegramMsg list \<Rightarrow> TelegramMsg list" where
  "poll_updater list prev =
     (if length (newMsgs prev list) = 0 then prev
      else keep200 (prev @ newMsgs prev list))"

text \<open>
  The push handler \<open>onTelegramMessage\<close>. \<open>p.id ?? `${Date.now()}-${Math.random()}`\<close>: the
  operator \<open>??\<close> takes the right operand only when the id is absent. The clock (milliseconds)
  and the printed random number are inputs of the model.
\<close>

definition push_id :: "payload \<Rightarrow> nat \<Rightarrow> string \<Rightarrow> string" where
  "push_id p now rnd =
     (case p_id p of None \<Rightarrow> String_nat now @ ''-'' @ rnd | Some n \<Rightarrow> String_num n)"

definition newMsg :: "payload \<Rightarrow> nat \<Rightarrow> string \<Rightarrow> TelegramMsg" where
  "newMsg p now rnd =
     \<lparr>msg_id = push_id p now rnd, msg_text = p_text p,
      msg_senderName = p_senderName p, msg_sentAt = p_sentAt p\<rparr>"

definition push_updater :: "TelegramMsg \<Rightarrow> TelegramMsg list \<Rightarrow> TelegramMsg list" where
  "push_updater n prev =
     (if list_ex (\<lambda>m. msg_id m = msg_id n) prev then prev else keep200 (prev @ [n]))"

section \<open>The poll tick of src/app/page.tsx\<close>

text \<open>
  This variant ignores the previous state: \<open>setTelegramMsgs(() => ...)\<close> maps the fetched
  list with ids \<open>`${idx}-${m.sentAt}-${m.senderName}-${m.text}`\<close> and returns
  \<open>mapped.slice(-200)\<close>.
\<close>

definition page_msg :: "nat \<Rightarrow> payload \<Rightarrow> TelegramMsg" where
  "page_msg idx m =
     \<lparr>msg_id = String_nat idx @ ''-'' @ p_sentAt m @ ''-'' @ p_senderName m @ ''-'' @ p_text m,
      msg_text = p_text m, msg_senderName = p_senderName m, msg_sentAt = p_sentAt m\<rparr>"

definition page_poll_updater :: "payload list \<Rightarrow> TelegramMsg list \<Rightarrow> TelegramMsg list" where
  "page_poll_updater list prev =
     slice_last 200 (map (\<lambda>(idx, m). page_msg idx m) (enumerate 0 list))"

section \<open>The transport effect: push connection with polling fallback\<close>

text \<open>
  The effect of \<open>HomePage\<close> that owns the feed. Its closure variables are \<open>pollTimer\<close> and
  \<open>unsub\<close>; the state it writes is \<open>telegramMsgs\<close>. The rest of the record is the part of
  the runtime the effect talks to: the interval timers that are alive, the next timer handle,
  the callbacks registered on the connection, the position of the asynchronous setup function
  (it awaits \<open>startSignalR()\<close>, then \<open>conn.invoke\<close>), the poll requests in flight, and the
  console. Timer handles are positive numbers, so a handle is truthy and \<open>None\<close> is \<open>null\<close>.
\<close>

datatype setup_pc = Await_startSignalR | Await_invoke | Setup_done

record feed =
  telegramMsgs :: "TelegramMsg list"
  pollTimer :: "nat option"
  unsub :: bool
  intervals :: "nat list"
  next_handle :: nat
  onclose_set :: bool
  handler_on :: bool
  pc :: setup_pc
  in_flight :: nat
  console :: "string list"

definition mount :: feed where
  "mount =
     \<lparr>telegramMsgs = [], pollTimer = None, unsub = False, intervals = [], next_handle = 1,
      onclose_set = False, handler_on = False, pc = Await_startSignalR, in_flight = 0,
      console = []\<rparr>"

definition startTelegramPolling :: "feed \<Rightarrow> feed" where
  "startTelegramPolling s =
     (if pollTimer s \<noteq> None then s
      else s\<lparr>pollTimer := Some (next_handle s),
             intervals := intervals s @ [next_handle s],
             next_handle := Suc (next_handle s),
             console := console s @ [''Telegram polling started'']\<rparr>)"

definition stopTelegramPolling :: "feed \<Rightarrow> feed" where
  "stopTelegramPolling s =
     (case pollTimer s of
        Some h \<Rightarrow> s\<lparr>intervals := removeAll h (intervals s)\<rparr>
      | None \<Rightarrow> s)
     \<lparr>pollTimer := None, console := console s @ [''Telegram polling stopped'']\<rparr>"

text \<open>
  The function returned by the effect: \<open>unsub?.(); stopTelegramPolling()\<close>. It writes
  \<open>pollTimer\<close> and removes the push handler; it sets nothing that the interval callback or
  the setup function reads before they call \<open>setTelegramMsgs\<close>.
\<close>

definition cleanup :: "feed \<Rightarrow> feed" where
  "cleanup s = stopTelegramPolling (if unsub s then s\<lparr>handler_on := False\<rparr> else s)"

text \<open>
  What can happen to the effect. A timer tick starts a request; the request settles later, as
  an event of its own, and only then is the updater applied. The push event carries the clock
  and the random number its handler reads.
\<close>

datatype event =
    SignalR_connected
  | SignalR_failed
  | Invoke_settled
  | Conn_closed
  | Push_message payload nat string
  | Timer_tick
  | Fetch_resolved "payload list option"
  | Fetch_rejected
  | Cleanup

fun step :: "event \<Rightarrow> feed \<Rightarrow> feed" where
  "step SignalR_connected s =
     (if pc s = Await_startSignalR
      then (stopTelegramPolling (s\<lparr>console := console s @ [''SignalR connected, stop polling'']\<rparr>))
             \<lparr>onclose_set := True, handler_on := True, pc := Await_invoke\<rparr>
      else s)"
| "step SignalR_failed s =
     (if pc s = Await_startSignalR
      then (startTelegramPolling
              (s\<lparr>console := console s @ [''SignalR failed, enabling polling...'']\<rparr>))
             \<lparr>pc := Setup_done\<rparr>
      else s)"
| "step Invoke_settled s =
     (if pc s = Await_invoke then s\<lparr>unsub := True, pc := Setup_done\<rparr> else s)"
| "step Conn_closed s =
     (if onclose_set s
      then startTelegramPolling (s\<lparr>console := console s @ [''SignalR closed, start polling'']\<rparr>)
      else s)"
| "step (Push_message p now rnd) s =
     (if handler_on s
      then s\<lparr>telegramMsgs := push_updater (newMsg p now rnd) (telegramMsgs s)\<rparr>
      else s)"
| "step Timer_tick s =
     (if intervals s \<noteq> [] then s\<lparr>in_flight := Suc (in_flight s)\<rparr> else s)"
| "step (Fetch_resolved d) s =
     (if in_flight s > 0
      then s\<lparr>in_flight := in_flight s - 1,
             telegramMsgs :=
               poll_updater (case d of None \<Rightarrow> [] | Some l \<Rightarrow> l) (telegramMsgs s)\<rparr>
      else s)"
| "step Fetch_rejected s =
     (if in_flight s > 0
      then s\<lparr>in_flight := in_flight s - 1, console := console s @ [''Polling error:'']\<rparr>
      else s)"
| "step Cleanup s = cleanup s"

fun run :: "event list \<Rightarrow> feed \<Rightarrow> feed" where
  "run [] s = s"
| "run (e # es) s = run es (step e s)"

section \<open>View clicks\<close>

text \<open>
  Of an \<open>Ad\<close> the handler reads \<open>id\<close>, \<open>userId\<close> and \<open>viewCount\<close>; the spread
  \<open>{ ...x, viewCount: newCount }\<close> keeps every other field, so the other fields are left
  out of the record.
\<close>

record Ad =
  ad_id :: int
  ad_userId :: int
  ad_viewCount :: int

text \<open>
  The state \<open>handleViewClick\<close> touches: the list \<open>ads\<close>, the map \<open>flashCounts\<close>, the
  \<open>carads_view_updated\<close> events dispatched on the window (ad id, count) and the route pushed.
\<close>

record page =
  ads :: "Ad list"
  flashCounts :: "int \<rightharpoonup> int"
  dispatched :: "(int \<times> int) list"
  route :: "(int \<times> int) option"

text \<open>
  The outcome of \<open>api.post(`/api/ads/${ad.id}/view`)\<close>: it rejects, or it resolves with a
  body whose \<open>viewCount\<close> may be missing.
\<close>

datatype post_outcome = Post_rejected | Post_resolved "int option"

text \<open>The step before the \<open>await\<close>: only \<open>setFlashCounts\<close>.\<close>

definition click_started :: "Ad \<Rightarrow> page \<Rightarrow> page" where
  "click_started ad s =
     s\<lparr>flashCounts :=
         (flashCounts s)(ad_id ad \<mapsto> (case flashCounts s (ad_id ad) of None \<Rightarrow> 0 | Some c \<Rightarrow> c) + 1)\<rparr>"

text \<open>
  The \<open>try\<close> block after the request settles; \<open>catch {}\<close> is empty.
  \<open>res.data?.viewCount ?? Number(ad.viewCount) + 1\<close> reads the ad that was clicked.
\<close>

definition post_settled :: "Ad \<Rightarrow> post_outcome \<Rightarrow> page \<Rightarrow> page" where
  "post_settled ad r s =
     (case r of
        Post_rejected \<Rightarrow> s
      | Post_resolved v \<Rightarrow>
          (let newCount = (case v of Some n \<Rightarrow> n | None \<Rightarrow> ad_viewCount ad + 1)
           in s\<lparr>ads := map (\<lambda>x. if ad_id x = ad_id ad then x\<lparr>ad_viewCount := newCount\<rparr> else x) (ads s),
                dispatched := dispatched s @ [(ad_id ad, newCount)]\<rparr>))"

text \<open>After 700 ms: \<open>router.push(`/u/${ad.userId}?ad=${ad.id}`)\<close>.\<close>

definition navigated :: "Ad \<Rightarrow> page \<Rightarrow> page" where
  "navigated ad s = s\<lparr>route := Some (ad_userId ad, ad_id ad)\<rparr>"

definition handleViewClick :: "Ad \<Rightarrow> post_outcome \<Rightarrow> page \<Rightarrow> page" where
  "handleViewClick ad r s = navigated ad (post_settled ad r (click_started ad s))"

section \<open>Append operations on the buffer\<close>

text \<open>
  The two ways the buffer grows, as operations on the array alone: a poll tick with the list it
  fetched, and a push event with its payload, clock and random number. \<open>candidates\<close> are
  the messages an operation offers; \<open>appends\<close> runs a sequence of operations in order.
\<close>

datatype append = Poll_batch "payload list" | Push_one payload nat string

fun candidates :: "append \<Rightarrow> TelegramMsg list" where
  "candidates (Poll_batch list) = map poll_msg list"
| "candidates (Push_one p now rnd) = [newMsg p now rnd]"

fun apply_append :: "append \<Rightarrow> TelegramMsg list \<Rightarrow> TelegramMsg list" where
  "apply_append (Poll_batch list) prev = poll_updater list prev"
| "apply_append (Push_one p now rnd) prev = push_updater (newMsg p now rnd) prev"

fun appends :: "append list \<Rightarrow> TelegramMsg list \<Rightarrow> TelegramMsg list" where
  "appends [] prev = prev"
| "appends (a # as) prev = appends as (apply_append a prev)"

text \<open>
  What an operation adds: its candidates whose id the buffer does not hold, in their order.
\<close>

definition appended :: "append \<Rightarrow> TelegramMsg list \<Rightarrow> TelegramMsg list" where
  "appended a prev = filter (\<lambda>c. msg_id c \<notin> existingIds prev) (candidates a)"

text \<open>Auxiliary: the number of hyphens of a string, and payloads used as concrete inputs.\<close>

definition hyphens :: "string \<Rightarrow> nat" where
  "hyphens s = length (filter (\<lambda>c. c = CHR ''-'') s)"

definition numbered :: "nat \<Rightarrow> payload" where
  "numbered i =
     \<lparr>p_id = Some (int i + 1), p_text = ''salam'', p_senderName = ''Ali'', p_sentAt = ''10:00''\<rparr>"

definition anonymous :: "string \<Rightarrow> payload" where
  "anonymous t = \<lparr>p_id = None, p_text = t, p_senderName = ''Ali'', p_sentAt = ''10:00''\<rparr>"

text \<open>
  Properties of the effect's state used below: the live interval timers are exactly the one
  \<open>pollTimer\<close> names; callbacks are registered and \<open>unsub\<close> is assigned only after
  \<open>startSignalR()\<close> has resolved; and polling is running.
\<close>

definition timer_inv :: "feed \<Rightarrow> bool" where
  "timer_inv s = (intervals s = (case pollTimer s of None \<Rightarrow> [] | Some h \<Rightarrow> [h]))"

definition setup_inv :: "feed \<Rightarrow> bool" where
  "setup_inv s = ((onclose_set s \<or> handler_on s \<or> unsub s) \<longrightarrow> pc s \<noteq> Await_startSignalR)"

definition polling :: "feed \<Rightarrow> bool" where
  "polling s = (pollTimer s \<noteq> None \<and> intervals s \<noteq> [] \<and> pc s \<noteq> Await_startSignalR)"




text \<open>An ad with five views on a page that shows it, as a concrete input.\<close>

definition ad5 :: Ad where
  "ad5 = \<lparr>ad_id = 1, ad_userId = 9, ad_viewCount = 5\<rparr>"

definition page5 :: page where
  "page5 = \<lparr>ads = [ad5], flashCounts = Map.empty, dispatched = [], route = None\<rparr>"

text \<open>What a message shows apart from its id.\<close>

definition content :: "TelegramMsg \<Rightarrow> string \<times> string \<times> string" where
  "content m = (msg_text m, msg_senderName m, msg_sentAt m)"

section \<open>Decimal strings\<close>

lemma String_nat_small: "n < 10 \<Longrightarrow> String_nat n = [digit_char n]"
  by (subst String_nat.simps) simp

lemma String_nat_large:
  "\<not> n < 10 \<Longrightarrow> String_nat n = String_nat (n div 10) @ [digit_char (n mod 10)]"
  by (subst String_nat.simps) simp

lemmas String_eval = String_num_def String_nat_small String_nat_large digit_char_def

lemma digit_char_inj: "d < 10 \<Longrightarrow> e < 10 \<Longrightarrow> digit_char d = digit_char e \<Longrightarrow> d = e"
proof -
  assume "d < 10" "e < 10"
  then have "d \<in> {0,1,2,3,4,5,6,7,8,9}" "e \<in> {0,1,2,3,4,5,6,7,8,9}" by auto
  moreover assume "digit_char d = digit_char e"
  ultimately show ?thesis by (auto simp add: digit_char_def)
qed

lemma digit_char_not_hyphen: "digit_char d \<noteq> CHR ''-''"
  by (simp add: digit_char_def)

lemma String_nat_not_Nil: "String_nat n \<noteq> []"
  by (subst String_nat.simps) simp

lemma String_nat_inj: "String_nat m = String_nat n \<Longrightarrow> m = n"
proof (induction m arbitrary: n rule: String_nat.induct)
  case (1 m)
  show ?case
  proof (cases "m < 10")
    case m: True
    show ?thesis
    proof (cases "n < 10")
      case True
      with m "1.prems" show ?thesis
        by (simp add: String_nat_small digit_char_inj)
    next
      case False
      with m "1.prems" String_nat_not_Nil [of "n div 10"] show ?thesis
        by (simp add: String_nat_small String_nat_large)
    qed
  next
    case m: False
    show ?thesis
    proof (cases "n < 10")
      case True
      with m "1.prems" String_nat_not_Nil [of "m div 10"] show ?thesis
        by (simp add: String_nat_small String_nat_large)
    next
      case False
      with m "1.prems" have e: "String_nat (m div 10) = String_nat (n div 10)"
        and d: "digit_char (m mod 10) = digit_char (n mod 10)"
        by (simp_all add: String_nat_large)
      have "m div 10 = n div 10" using m e by (rule "1.IH")
      moreover have "m mod 10 = n mod 10" using d by (simp add: digit_char_inj)
      ultimately show ?thesis by (metis div_mult_mod_eq)
    qed
  qed
qed

lemma hyphen_notin_String_nat: "CHR ''-'' \<notin> set (String_nat n)"
proof (induction n rule: String_nat.induct)
  case (1 n)
  show ?case
  proof (cases "n < 10")
    case True
    then show ?thesis
      using digit_char_not_hyphen [of n] by (simp add: String_nat_small)
  next
    case False
    then show ?thesis
      using "1.IH" digit_char_not_hyphen [of "n mod 10"] by (simp add: String_nat_large)
  qed
qed

lemma String_num_inj: "String_num i = String_num j \<Longrightarrow> i = j"
proof -
  assume e: "String_num i = String_num j"
  consider "i < 0" "j < 0" | "i < 0" "\<not> j < 0" | "\<not> i < 0" "j < 0" | "\<not> i < 0" "\<not> j < 0"
    by blast
  then show ?thesis
  proof cases
    case 1
    with e have "nat (- i) = nat (- j)" by (simp add: String_num_def String_nat_inj)
    with 1 show ?thesis by simp
  next
    case 2
    with e have "String_nat (nat j) = CHR ''-'' # String_nat (nat (- i))"
      by (simp add: String_num_def)
    then have "CHR ''-'' \<in> set (String_nat (nat j))" by simp
    then show ?thesis by (simp add: hyphen_notin_String_nat)
  next
    case 3
    with e have "String_nat (nat i) = CHR ''-'' # String_nat (nat (- j))"
      by (simp add: String_num_def)
    then have "CHR ''-'' \<in> set (String_nat (nat i))" by simp
    then show ?thesis by (simp add: hyphen_notin_String_nat)
  next
    case 4
    with e have "nat i = nat j" by (simp add: String_num_def String_nat_inj)
    with 4 show ?thesis by simp
  qed
qed

lemma hyphens_String_nat: "hyphens (String_nat n) = 0"
  using hyphen_notin_String_nat [of n] by (auto simp add: hyphens_def filter_empty_conv)

lemma hyphens_String_num: "hyphens (String_num i) \<le> 1"
  using hyphens_String_nat [of "nat i"] hyphens_String_nat [of "nat (- i)"]
  by (simp add: String_num_def hyphens_def)

lemma hyphens_composite: "2 \<le> hyphens (composite_id m)"
  by (simp add: composite_id_def hyphens_def)

lemma composite_not_num: "composite_id m \<noteq> String_num i"
  using hyphens_String_num [of i] hyphens_composite [of m] by auto

lemma poll_id_explicit:
  "i \<noteq> j \<Longrightarrow> poll_id (m\<lparr>p_id := Some i\<rparr>) \<noteq> poll_id (m\<lparr>p_id := Some j\<rparr>)"
  using composite_not_num [of "m\<lparr>p_id := Some i\<rparr>" j] composite_not_num [of "m\<lparr>p_id := Some j\<rparr>" i]
    String_num_inj [of i j]
  by (auto simp add: poll_id_def composite_id_def)

section \<open>The bounded window\<close>

lemma length_keep200: "length (keep200 xs) \<le> 200"
  by (simp add: keep200_def slice_last_def)

lemma keep200_drop: "keep200 xs = drop (length xs - 200) xs"
  by (simp add: keep200_def slice_last_def)

lemma keep200_id: "length xs \<le> 200 \<Longrightarrow> keep200 xs = xs"
  by (simp add: keep200_def)

lemma keep200_append: "keep200 (keep200 xs @ ys) = keep200 (xs @ ys)"
proof (cases "length xs \<le> 200")
  case True
  then show ?thesis by (simp add: keep200_def)
next
  case False
  then show ?thesis by (simp add: keep200_drop add.commute)
qed

lemma msg_id_poll_msg [simp]: "msg_id (poll_msg m) = poll_id m"
  by (simp add: poll_msg_def)

lemma msg_id_newMsg [simp]: "msg_id (newMsg p now rnd) = push_id p now rnd"
  by (simp add: newMsg_def)

lemma ids_newMsgs:
  "map msg_id (newMsgs prev list) = filter (\<lambda>i. i \<notin> existingIds prev) (map poll_id list)"
  by (simp add: newMsgs_def filter_map comp_def)

lemma newMsgs_fresh:
  "set (map poll_id list) \<inter> existingIds prev = {} \<Longrightarrow> newMsgs prev list = map poll_msg list"
proof -
  assume "set (map poll_id list) \<inter> existingIds prev = {}"
  then have "\<forall>m \<in> set list. poll_id m \<notin> existingIds prev" by auto
  then have "filter (\<lambda>m. poll_id m \<notin> existingIds prev) list = list" by (simp add: filter_id_conv)
  then show ?thesis by (simp add: newMsgs_def)
qed

lemma distinct_ids_drop:
  "distinct (map msg_id (xs @ ys)) \<Longrightarrow> distinct (map msg_id (drop k xs @ ys))"
proof -
  assume d: "distinct (map msg_id (xs @ ys))"
  have "set (drop k xs) \<subseteq> set xs" by (rule set_drop_subset)
  moreover have "distinct (map msg_id (drop k xs))"
    using d by (simp add: drop_map [symmetric])
  ultimately show ?thesis using d by auto
qed

lemma distinct_ids_keep200:
  "distinct (map msg_id (xs @ ys)) \<Longrightarrow> distinct (map msg_id (keep200 xs @ ys))"
  by (simp only: keep200_drop distinct_ids_drop)

lemma length_poll_updater: "length prev \<le> 200 \<Longrightarrow> length (poll_updater list prev) \<le> 200"
  by (simp add: poll_updater_def length_keep200)

lemma length_push_updater: "length prev \<le> 200 \<Longrightarrow> length (push_updater n prev) \<le> 200"
  by (simp add: push_updater_def length_keep200)

section \<open>Sequences of appends\<close>

lemma apply_append_fresh_eq:
  assumes "distinct (map msg_id (prev @ candidates a))"
  shows "apply_append a prev = (if candidates a = [] then prev else keep200 (prev @ candidates a))"
proof (cases a)
  case (Poll_batch list)
  have "set (map poll_id list) \<inter> existingIds prev = {}"
    using assms Poll_batch by (auto simp add: existingIds_def)
  then have "newMsgs prev list = map poll_msg list" by (rule newMsgs_fresh)
  then show ?thesis using Poll_batch by (simp add: poll_updater_def)
next
  case (Push_one p now rnd)
  have "msg_id (newMsg p now rnd) \<notin> msg_id ` set prev"
    using assms Push_one by simp
  then have "\<not> list_ex (\<lambda>m. msg_id m = msg_id (newMsg p now rnd)) prev"
    unfolding list_ex_iff by (metis image_eqI)
  then show ?thesis using Push_one by (simp add: push_updater_def)
qed

lemma apply_append_fresh:
  assumes "distinct (map msg_id (prev @ candidates a))"
  shows "keep200 (apply_append a prev @ ys) = keep200 (prev @ candidates a @ ys)"
proof (cases "candidates a = []")
  case True
  then show ?thesis using apply_append_fresh_eq [OF assms] by simp
next
  case False
  then show ?thesis
    using apply_append_fresh_eq [OF assms] keep200_append [of "prev @ candidates a" ys] by simp
qed

lemma distinct_after_append:
  assumes "distinct (map msg_id (prev @ candidates a @ ys))"
  shows "distinct (map msg_id (apply_append a prev @ ys))"
proof -
  have d: "distinct (map msg_id (prev @ candidates a))" using assms by auto
  show ?thesis
  proof (cases "candidates a = []")
    case True
    then show ?thesis using apply_append_fresh_eq [OF d] assms by simp
  next
    case False
    have "distinct (map msg_id (keep200 (prev @ candidates a) @ ys))"
      using assms distinct_ids_keep200 [of "prev @ candidates a" ys] by simp
    then show ?thesis using False apply_append_fresh_eq [OF d] by simp
  qed
qed

lemma appends_fresh:
  "distinct (map msg_id (prev @ concat (map candidates as))) \<Longrightarrow>
   keep200 (appends as prev) = keep200 (prev @ concat (map candidates as))"
proof (induction as arbitrary: prev)
  case Nil
  then show ?case by simp
next
  case (Cons a as)
  let ?C = "concat (map candidates as)"
  have d: "distinct (map msg_id (prev @ candidates a))" using Cons.prems by auto
  have k: "keep200 (apply_append a prev @ ?C) = keep200 (prev @ candidates a @ ?C)"
    using d by (rule apply_append_fresh)
  have "distinct (map msg_id (apply_append a prev @ ?C))"
    using Cons.prems distinct_after_append [of prev a ?C] by simp
  then have "keep200 (appends as (apply_append a prev)) = keep200 (apply_append a prev @ ?C)"
    by (rule Cons.IH)
  then show ?case using k by simp
qed

lemma length_apply_append: "length prev \<le> 200 \<Longrightarrow> length (apply_append a prev) \<le> 200"
  by (cases a) (simp_all add: length_poll_updater length_push_updater)

lemma length_appends: "length prev \<le> 200 \<Longrightarrow> length (appends as prev) \<le> 200"
  by (induction as arbitrary: prev) (simp_all add: length_apply_append)

lemma telegramMsgs_start [simp]: "telegramMsgs (startTelegramPolling s) = telegramMsgs s"
  by (simp add: startTelegramPolling_def)

lemma telegramMsgs_stop [simp]: "telegramMsgs (stopTelegramPolling s) = telegramMsgs s"
  by (simp add: stopTelegramPolling_def split: option.splits)

lemma telegramMsgs_cleanup [simp]: "telegramMsgs (cleanup s) = telegramMsgs s"
  by (simp add: cleanup_def)

lemma length_step: "length (telegramMsgs s) \<le> 200 \<Longrightarrow> length (telegramMsgs (step e s)) \<le> 200"
  by (cases e) (simp_all add: length_poll_updater length_push_updater)

lemma length_run: "length (telegramMsgs s) \<le> 200 \<Longrightarrow> length (telegramMsgs (run evs s)) \<le> 200"
  by (induction evs arbitrary: s) (simp_all add: length_step)

lemma appended_poll: "appended (Poll_batch list) prev = newMsgs prev list"
  by (simp add: appended_def newMsgs_def filter_map comp_def)

lemma appended_push:
  "appended (Push_one p now rnd) prev =
     (if list_ex (\<lambda>m. msg_id m = msg_id (newMsg p now rnd)) prev then [] else [newMsg p now rnd])"
proof -
  have "list_ex (\<lambda>m. msg_id m = msg_id (newMsg p now rnd)) prev \<longleftrightarrow>
      msg_id (newMsg p now rnd) \<in> existingIds prev"
    by (simp add: list_ex_iff existingIds_def image_iff) (metis (no_types))
  then show ?thesis by (simp add: appended_def)
qed

lemma apply_append_step:
  "apply_append a prev =
     (if appended a prev = [] then prev else slice_last 200 (prev @ appended a prev))"
proof (cases a)
  case (Poll_batch list)
  then show ?thesis
    by (simp add: appended_poll poll_updater_def keep200_def slice_last_def)
next
  case (Push_one p now rnd)
  then show ?thesis
    by (simp add: appended_push push_updater_def keep200_def slice_last_def)
qed

lemma apply_append_bounded:
  assumes "length prev \<le> 200"
  shows "apply_append a prev = slice_last 200 (prev @ appended a prev)"
  using assms by (simp add: apply_append_step slice_last_def)

text \<open>
  Claim C2. After every event of the effect, and after every sequence of append operations
  from the empty buffer, the buffer holds at most 200 messages. One append operation, on any
  buffer and with any candidates, known or new, returns the buffer itself when it adds
  nothing, and otherwise the last 200 messages of the list made of the buffer followed by
  what it adds: the messages that go are the oldest, from the front. On a buffer of at most
  200 messages the result is in both cases the last 200 of that list.
  When the candidates of a sequence of operations have pairwise different ids, the buffer
  is the last 200 of them in the order they were offered.
\<close>

theorem buffer_bounded_fifo:
  "length (telegramMsgs (run evs mount)) \<le> 200 \<and>
   length (appends as []) \<le> 200 \<and>
   apply_append a prev =
     (if appended a prev = [] then prev else slice_last 200 (prev @ appended a prev)) \<and>
   (length prev \<le> 200 \<longrightarrow>
      apply_append a prev = slice_last 200 (prev @ appended a prev) \<and>
      length (apply_append a prev) \<le> 200) \<and>
   (distinct (map msg_id (concat (map candidates as))) \<longrightarrow>
      appends as [] = slice_last 200 (concat (map candidates as)))"
proof -
  have r: "length (telegramMsgs (run evs mount)) \<le> 200"
    by (rule length_run) (simp add: mount_def)
  have l: "length (appends as []) \<le> 200" by (simp add: length_appends)
  have s: "apply_append a prev =
     (if appended a prev = [] then prev else slice_last 200 (prev @ appended a prev))"
    by (rule apply_append_step)
  have b: "apply_append a prev = slice_last 200 (prev @ appended a prev) \<and>
      length (apply_append a prev) \<le> 200" if "length prev \<le> 200"
    using that apply_append_bounded [of prev a] length_apply_append [of prev a] by simp
  have d: "appends as [] = slice_last 200 (concat (map candidates as))"
    if "distinct (map msg_id (concat (map candidates as)))"
  proof -
    have "keep200 (appends as []) = keep200 ([] @ concat (map candidates as))"
      using that appends_fresh [of "[]" as] by simp
    then show ?thesis using l by (simp add: keep200_id) (simp add: keep200_def slice_last_def)
  qed
  show ?thesis
  proof (intro conjI impI)
    show "length (telegramMsgs (run evs mount)) \<le> 200" by (rule r)
    show "length (appends as []) \<le> 200" by (rule l)
    show "apply_append a prev =
      (if appended a prev = [] then prev else slice_last 200 (prev @ appended a prev))" by (rule s)
    show "apply_append a prev = slice_last 200 (prev @ appended a prev)" if "length prev \<le> 200"
      using b [OF that] by (rule conjunct1)
    show "length (apply_append a prev) \<le> 200" if "length prev \<le> 200"
      using b [OF that] by (rule conjunct2)
    show "appends as [] = slice_last 200 (concat (map candidates as))"
      if "distinct (map msg_id (concat (map candidates as)))"
      using that by (rule d)
  qed
qed

lemma numbered_ids_inj: "inj (\<lambda>i. poll_id (numbered i))"
proof (rule injI)
  fix i j
  assume "poll_id (numbered i) = poll_id (numbered j)"
  then have "String_num (int i + 1) = String_num (int j + 1)"
    by (simp add: poll_id_def numbered_def)
  then have "int i + 1 = int j + 1" by (rule String_num_inj)
  then show "i = j" by simp
qed

lemma numbered_known:
  "poll_id (numbered k) \<in> existingIds (map (\<lambda>i. poll_msg (numbered i)) [m..<n]) \<longleftrightarrow> m \<le> k \<and> k < n"
proof -
  have "existingIds (map (\<lambda>i. poll_msg (numbered i)) [m..<n]) = (\<lambda>i. poll_id (numbered i)) ` {m..<n}"
    by (simp add: existingIds_def comp_def)
  moreover have "poll_id (numbered k) \<in> (\<lambda>i. poll_id (numbered i)) ` {m..<n} \<longleftrightarrow> k \<in> {m..<n}"
    using numbered_ids_inj by (rule inj_image_mem_iff)
  ultimately show ?thesis by simp
qed

theorem buffer_bounded_fifo_witness:
  "distinct (map msg_id (concat (map candidates [Poll_batch (map numbered [0..<250])]))) \<and>
   appends [Poll_batch (map numbered [0..<250])] [] = map (\<lambda>i. poll_msg (numbered i)) [50..<250] \<and>
   length (appends [Poll_batch (map numbered [0..<250])] []) = 200 \<and>
   length (map (\<lambda>i. poll_msg (numbered i)) [0..<200]) \<le> 200 \<and>
   appended (Poll_batch [numbered 5, numbered 300]) (map (\<lambda>i. poll_msg (numbered i)) [0..<200]) =
     [poll_msg (numbered 300)] \<and>
   apply_append (Poll_batch [numbered 5, numbered 300]) (map (\<lambda>i. poll_msg (numbered i)) [0..<200]) =
     map (\<lambda>i. poll_msg (numbered i)) [1..<200] @ [poll_msg (numbered 300)]"
proof -
  let ?as = "[Poll_batch (map numbered [0..<250])]"
  let ?prev = "map (\<lambda>i. poll_msg (numbered i)) [0..<200]"
  let ?a = "Poll_batch [numbered 5, numbered 300]"
  have d: "distinct (map msg_id (concat (map candidates ?as)))"
    using numbered_ids_inj by (simp add: distinct_map comp_def inj_on_def inj_def)
  have "appends ?as [] = slice_last 200 (concat (map candidates ?as))"
    using d buffer_bounded_fifo [of _ ?as] by blast
  also have "\<dots> = map (\<lambda>i. poll_msg (numbered i)) [50..<250]"
    by (simp add: slice_last_def drop_map)
  finally have e: "appends ?as [] = map (\<lambda>i. poll_msg (numbered i)) [50..<250]" .
  have h: "length ?prev \<le> 200" by (simp only: length_map length_upt)
  have n: "appended ?a ?prev = [poll_msg (numbered 300)]"
    by (simp add: appended_def numbered_known)
  have "apply_append ?a ?prev = slice_last 200 (?prev @ appended ?a ?prev)"
    using h buffer_bounded_fifo [of _ _ ?a ?prev] by blast
  also have "\<dots> = map (\<lambda>i. poll_msg (numbered i)) [1..<200] @ [poll_msg (numbered 300)]"
    by (simp only: n slice_last_def drop_map length_append length_map length_upt drop_append drop_upt list.size)
      simp
  finally have f: "apply_append ?a ?prev =
      map (\<lambda>i. poll_msg (numbered i)) [1..<200] @ [poll_msg (numbered 300)]" .
  have g: "length (appends ?as []) = 200" by (simp only: e length_map length_upt)
  show ?thesis
  proof (intro conjI)
    show "distinct (map msg_id (concat (map candidates ?as)))" by (rule d)
    show "appends ?as [] = map (\<lambda>i. poll_msg (numbered i)) [50..<250]" by (rule e)
    show "length (appends ?as []) = 200" by (rule g)
    show "length ?prev \<le> 200" by (rule h)
    show "appended ?a ?prev = [poll_msg (numbered 300)]" by (rule n)
    show "apply_append ?a ?prev =
      map (\<lambda>i. poll_msg (numbered i)) [1..<200] @ [poll_msg (numbered 300)]" by (rule f)
  qed
qed

text \<open>
  Claim C9. When every message of the fetched list has an id that the buffer already holds,
  the poll tick finds nothing new (\<open>newMsgs\<close> is empty) and its updater returns
  \<open>prev\<close>; when the buffer holds the id of a pushed message, the push updater returns
  \<open>prev\<close>. React skips the render when an updater returns the state it was given.
\<close>

theorem duplicates_leave_buffer_unchanged:
  "((\<forall>m \<in> set list. poll_id m \<in> existingIds prev) \<longrightarrow>
      newMsgs prev list = [] \<and> poll_updater list prev = prev) \<and>
   (msg_id n \<in> existingIds prev \<longrightarrow> push_updater n prev = prev)"
  by (auto simp add: newMsgs_def filter_empty_conv poll_updater_def push_updater_def
      existingIds_def list_ex_iff)

theorem duplicates_leave_buffer_unchanged_witness:
  "poll_id (numbered 1) \<in> existingIds (map poll_msg [numbered 0, numbered 1]) \<and>
   poll_id (numbered 0) \<in> existingIds (map poll_msg [numbered 0, numbered 1]) \<and>
   newMsgs (map poll_msg [numbered 0, numbered 1]) [numbered 1, numbered 0] = [] \<and>
   poll_updater [numbered 1, numbered 0] (map poll_msg [numbered 0, numbered 1]) =
     map poll_msg [numbered 0, numbered 1] \<and>
   msg_id (newMsg (numbered 1) 1700000000000 ''0.25'') \<in> existingIds (map poll_msg [numbered 0, numbered 1]) \<and>
   push_updater (newMsg (numbered 1) 1700000000000 ''0.25'') (map poll_msg [numbered 0, numbered 1]) =
     map poll_msg [numbered 0, numbered 1]"
proof -
  let ?prev = "map poll_msg [numbered 0, numbered 1]"
  have h1: "\<forall>m \<in> set [numbered 1, numbered 0]. poll_id m \<in> existingIds ?prev"
    by (simp add: existingIds_def)
  have h2: "msg_id (newMsg (numbered 1) 1700000000000 ''0.25'') \<in> existingIds ?prev"
    by (simp add: existingIds_def push_id_def poll_id_def numbered_def)
  have c: "newMsgs ?prev [numbered 1, numbered 0] = [] \<and>
      poll_updater [numbered 1, numbered 0] ?prev = ?prev \<and>
      push_updater (newMsg (numbered 1) 1700000000000 ''0.25'') ?prev = ?prev"
    using h1 h2
      duplicates_leave_buffer_unchanged [of "[numbered 1, numbered 0]" ?prev
        "newMsg (numbered 1) 1700000000000 ''0.25''"]
    by blast
  from h1 have "poll_id (numbered 1) \<in> existingIds ?prev" "poll_id (numbered 0) \<in> existingIds ?prev"
    by simp_all
  with h2 c show ?thesis by blast
qed


section \<open>Identity of messages\<close>

lemma poll_updater_distinct:
  assumes "distinct (map msg_id prev)" and "distinct (map poll_id list)"
  shows "distinct (map msg_id (poll_updater list prev))"
proof (cases "newMsgs prev list = []")
  case True
  then show ?thesis using assms by (simp add: poll_updater_def)
next
  case False
  have "distinct (map msg_id (newMsgs prev list))"
    using assms(2) by (simp add: ids_newMsgs)
  moreover have "set (map msg_id prev) \<inter> set (map msg_id (newMsgs prev list)) = {}"
    by (auto simp add: ids_newMsgs existingIds_def)
  ultimately have "distinct (map msg_id (prev @ newMsgs prev list))"
    using assms(1) by simp
  then have "distinct (map msg_id (keep200 (prev @ newMsgs prev list) @ []))"
    using distinct_ids_keep200 [of "prev @ newMsgs prev list" "[]"] by simp
  then show ?thesis using False by (simp add: poll_updater_def)
qed

lemma push_updater_distinct:
  assumes "distinct (map msg_id prev)"
  shows "distinct (map msg_id (push_updater n prev))"
proof (cases "list_ex (\<lambda>m. msg_id m = msg_id n) prev")
  case True
  then show ?thesis using assms by (simp add: push_updater_def)
next
  case False
  then have "msg_id n \<notin> set (map msg_id prev)" by (auto simp add: list_ex_iff)
  then have "distinct (map msg_id (prev @ [n]))" using assms by simp
  then have "distinct (map msg_id (keep200 (prev @ [n]) @ []))"
    using distinct_ids_keep200 [of "prev @ [n]" "[]"] by simp
  then show ?thesis using False by (simp add: push_updater_def)
qed

text \<open>
  Claim C1 asks that every id occurs once in the buffer after any sequence of appends. The
  two lemmas above give this for a push event, and for a poll tick whose fetched list has
  pairwise different ids. The poll updater compares each fetched message with the ids of
  \<open>prev\<close> only, never with the messages it appends in the same call: two fetched
  messages without a server id, from the same sender at the same time, whose texts agree on
  the first ten characters, get the same id and are both appended.
\<close>

theorem poll_batch_keeps_duplicate_ids:
  "poll_updater [anonymous ''hello world 1'', anonymous ''hello world 2''] [] =
     [\<lparr>msg_id = ''10:00-Ali-hello worl'', msg_text = ''hello world 1'',
       msg_senderName = ''Ali'', msg_sentAt = ''10:00''\<rparr>,
      \<lparr>msg_id = ''10:00-Ali-hello worl'', msg_text = ''hello world 2'',
       msg_senderName = ''Ali'', msg_sentAt = ''10:00''\<rparr>] \<and>
   \<not> distinct (map msg_id (poll_updater [anonymous ''hello world 1'', anonymous ''hello world 2''] []))"
  by (simp add: poll_updater_def newMsgs_def existingIds_def poll_msg_def poll_id_def
      composite_id_def anonymous_def keep200_def)

lemma tail_in_keep200:
  assumes "length ys \<le> 200"
  shows "keep200 (xs @ ys) = drop (length xs + length ys - 200) xs @ ys"
  using assms by (simp add: keep200_drop)

lemma poll_two_fresh:
  assumes "poll_id a \<notin> existingIds prev" and "poll_id b \<notin> existingIds prev"
  shows "\<exists>old. poll_updater [a, b] prev = old @ [poll_msg a, poll_msg b]"
proof -
  have "newMsgs prev [a, b] = [poll_msg a, poll_msg b]"
    using assms by (simp add: newMsgs_def)
  then have "poll_updater [a, b] prev = keep200 (prev @ [poll_msg a, poll_msg b])"
    by (simp add: poll_updater_def)
  then show ?thesis using tail_in_keep200 [of "[poll_msg a, poll_msg b]" prev] by simp
qed

lemma push_two_fresh:
  assumes "msg_id x \<noteq> msg_id y"
    and "msg_id x \<notin> existingIds prev" and "msg_id y \<notin> existingIds prev"
  shows "\<exists>old. push_updater y (push_updater x prev) = old @ [x, y]"
proof -
  have "\<not> list_ex (\<lambda>m. msg_id m = msg_id x) prev"
    using assms(2) unfolding list_ex_iff existingIds_def by (metis image_eqI set_map)
  then have "push_updater x prev = keep200 (prev @ [x])" by (simp add: push_updater_def)
  then obtain old where o: "push_updater x prev = old @ [x]" and s: "set old \<subseteq> set prev"
    using tail_in_keep200 [of "[x]" prev] set_drop_subset [of _ prev] by auto
  have ny: "msg_id y \<notin> msg_id ` set prev" using assms(3) by (simp add: existingIds_def)
  have "msg_id ` set old \<subseteq> msg_id ` set prev" using s by (rule image_mono)
  then have "msg_id y \<notin> msg_id ` set old" using ny by blast
  then have "msg_id y \<notin> msg_id ` set (old @ [x])" using assms(1) by auto
  then have "\<not> list_ex (\<lambda>m. msg_id m = msg_id y) (old @ [x])"
    unfolding list_ex_iff by (metis image_eqI)
  then have "push_updater y (old @ [x]) = keep200 (old @ [x, y])" by (simp add: push_updater_def)
  then show ?thesis using o tail_in_keep200 [of "[x, y]" old] by simp
qed

text \<open>
  Two payloads that differ in their explicit id only get different ids on both paths, and
  when the buffer holds neither id both are appended, as the last two messages of the
  buffer, by one poll tick and by two push events.
\<close>

lemma explicit_ids_differ:
  assumes "i \<noteq> j"
  shows "poll_id (m\<lparr>p_id := Some i\<rparr>) \<noteq> poll_id (m\<lparr>p_id := Some j\<rparr>)"
    and "push_id (m\<lparr>p_id := Some i\<rparr>) now rnd \<noteq> push_id (m\<lparr>p_id := Some j\<rparr>) now' rnd'"
  using assms poll_id_explicit [of i j m] String_num_inj [of i j] by (auto simp add: push_id_def)

lemma explicit_ids_both_kept:
  assumes "i \<noteq> j"
  shows "poll_id (m\<lparr>p_id := Some i\<rparr>) \<notin> existingIds prev \<Longrightarrow>
         poll_id (m\<lparr>p_id := Some j\<rparr>) \<notin> existingIds prev \<Longrightarrow>
         \<exists>old. poll_updater [m\<lparr>p_id := Some i\<rparr>, m\<lparr>p_id := Some j\<rparr>] prev =
           old @ [poll_msg (m\<lparr>p_id := Some i\<rparr>), poll_msg (m\<lparr>p_id := Some j\<rparr>)]"
    and "push_id (m\<lparr>p_id := Some i\<rparr>) now rnd \<notin> existingIds prev \<Longrightarrow>
         push_id (m\<lparr>p_id := Some j\<rparr>) now' rnd' \<notin> existingIds prev \<Longrightarrow>
         \<exists>old. push_updater (newMsg (m\<lparr>p_id := Some j\<rparr>) now' rnd')
                  (push_updater (newMsg (m\<lparr>p_id := Some i\<rparr>) now rnd) prev) =
           old @ [newMsg (m\<lparr>p_id := Some i\<rparr>) now rnd, newMsg (m\<lparr>p_id := Some j\<rparr>) now' rnd']"
proof -
  show "\<exists>old. poll_updater [m\<lparr>p_id := Some i\<rparr>, m\<lparr>p_id := Some j\<rparr>] prev =
           old @ [poll_msg (m\<lparr>p_id := Some i\<rparr>), poll_msg (m\<lparr>p_id := Some j\<rparr>)]"
    if "poll_id (m\<lparr>p_id := Some i\<rparr>) \<notin> existingIds prev"
      and "poll_id (m\<lparr>p_id := Some j\<rparr>) \<notin> existingIds prev"
    using that by (rule poll_two_fresh)
  show "\<exists>old. push_updater (newMsg (m\<lparr>p_id := Some j\<rparr>) now' rnd')
                  (push_updater (newMsg (m\<lparr>p_id := Some i\<rparr>) now rnd) prev) =
           old @ [newMsg (m\<lparr>p_id := Some i\<rparr>) now rnd, newMsg (m\<lparr>p_id := Some j\<rparr>) now' rnd']"
    if h: "push_id (m\<lparr>p_id := Some i\<rparr>) now rnd \<notin> existingIds prev"
      "push_id (m\<lparr>p_id := Some j\<rparr>) now' rnd' \<notin> existingIds prev"
  proof (rule push_two_fresh)
    show "msg_id (newMsg (m\<lparr>p_id := Some i\<rparr>) now rnd) \<noteq> msg_id (newMsg (m\<lparr>p_id := Some j\<rparr>) now' rnd')"
      using explicit_ids_differ(2) [OF assms] by simp
    show "msg_id (newMsg (m\<lparr>p_id := Some i\<rparr>) now rnd) \<notin> existingIds prev" using h by simp
    show "msg_id (newMsg (m\<lparr>p_id := Some j\<rparr>) now' rnd') \<notin> existingIds prev" using h by simp
  qed
qed

text \<open>
  On the poll path a payload without an id, or with the id 0, gets the id
  \<open>sentAt-senderName-\<close> followed by the first ten characters of the text.
\<close>

lemma poll_id_composite:
  "p_id m = None \<or> p_id m = Some 0 \<Longrightarrow>
   poll_id m = p_sentAt m @ ''-'' @ p_senderName m @ ''-'' @ take 10 (p_text m)"
  by (auto simp add: poll_id_def composite_id_def)

text \<open>
  Claim C6 asks that a message without a server id gets an id built from its time, sender
  and text. The poll path does that; the push handler takes the clock and a random number
  instead. A message without a server id that arrives by push at clock 1700000000000 gets
  the id \<open>1700000000000-0.25\<close>, not \<open>10:00-Ali-salam\<close>; when a poll tick later fetches
  the same message, the buffer does not hold its poll id and the message is appended a
  second time.
\<close>

theorem push_id_ignores_message:
  "p_id (anonymous ''salam'') = None \<and>
   poll_id (anonymous ''salam'') = ''10:00-Ali-salam'' \<and>
   push_id (anonymous ''salam'') 1700000000000 ''0.25'' = ''1700000000000-0.25'' \<and>
   push_id (anonymous ''salam'') 1700000000000 ''0.25'' \<noteq> composite_id (anonymous ''salam'') \<and>
   push_id (anonymous ''salam'') 1700000000001 ''0.25'' \<noteq>
     push_id (anonymous ''salam'') 1700000000000 ''0.25'' \<and>
   poll_updater [anonymous ''salam'']
       (push_updater (newMsg (anonymous ''salam'') 1700000000000 ''0.25'') []) =
     [\<lparr>msg_id = ''1700000000000-0.25'', msg_text = ''salam'',
       msg_senderName = ''Ali'', msg_sentAt = ''10:00''\<rparr>,
      \<lparr>msg_id = ''10:00-Ali-salam'', msg_text = ''salam'',
       msg_senderName = ''Ali'', msg_sentAt = ''10:00''\<rparr>]"
  by (simp add: anonymous_def composite_id_def poll_id_def push_id_def String_eval
      poll_updater_def push_updater_def newMsgs_def newMsg_def poll_msg_def existingIds_def
      keep200_def)

section \<open>The two poll ticks compared\<close>

text \<open>
  Claim C10, as the code has it. The poll tick of src/app/page.tsx ignores the buffer it is
  given; the texts, senders and times it returns are those the poll tick of unnamed/part_000
  returns from the empty buffer. The ids differ.
\<close>

theorem page_poll_contents:
  "map content (page_poll_updater list prev) = map content (poll_updater list [])"
proof -
  have c: "map content (map (\<lambda>(idx, m). page_msg idx m) (enumerate 0 list)) = map content (map poll_msg list)"
  proof -
    have "map content (map (\<lambda>(idx, m). page_msg idx m) (enumerate 0 list))
        = map ((\<lambda>m. (p_text m, p_senderName m, p_sentAt m)) \<circ> snd) (enumerate 0 list)"
      by (simp add: content_def page_msg_def comp_def split_def)
    also have "\<dots> = map (\<lambda>m. (p_text m, p_senderName m, p_sentAt m)) list"
      by (simp only: map_map [symmetric] map_snd_enumerate)
    also have "\<dots> = map content (map poll_msg list)"
      by (simp add: content_def poll_msg_def comp_def)
    finally show ?thesis .
  qed
  have n: "newMsgs [] list = map poll_msg list" by (simp add: newMsgs_def existingIds_def)
  have "poll_updater list [] = drop (length list - 200) (map poll_msg list)"
    using n by (cases "list = []") (simp_all add: poll_updater_def keep200_drop)
  moreover have "page_poll_updater list prev =
      drop (length list - 200) (map (\<lambda>(idx, m). page_msg idx m) (enumerate 0 list))"
    by (simp add: page_poll_updater_def slice_last_def)
  ultimately have "map content (page_poll_updater list prev) =
      drop (length list - 200) (map content (map (\<lambda>(idx, m). page_msg idx m) (enumerate 0 list)))"
    and "map content (poll_updater list []) =
      drop (length list - 200) (map content (map poll_msg list))"
    by (simp_all only: drop_map)
  then show ?thesis using c by simp
qed

text \<open>
  The claim C10 as written fails: with one message in the buffer and an empty fetched list,
  page.tsx empties the buffer and part_000 keeps it.
\<close>

theorem page_poll_differs:
  "page_poll_updater [] [poll_msg (numbered 0)] \<noteq> poll_updater [] [poll_msg (numbered 0)]"
  by (simp add: page_poll_updater_def poll_updater_def newMsgs_def slice_last_def enumerate_eq_zip)


section \<open>View clicks: the flash counter and the count the server returns\<close>

text \<open>
  Claim C7. When the request of a view click fails, nothing is rolled back and nothing else
  happens to the lists the page renders: the state after the failure is the state right after
  the click, whose only change is the flash counter.
\<close>

theorem failed_view_keeps_state:
  "post_settled ad Post_rejected (click_started ad s) = click_started ad s \<and>
   ads (handleViewClick ad Post_rejected s) = ads (click_started ad s) \<and>
   flashCounts (handleViewClick ad Post_rejected s) = flashCounts (click_started ad s) \<and>
   dispatched (handleViewClick ad Post_rejected s) = dispatched (click_started ad s)"
  by (simp add: handleViewClick_def post_settled_def navigated_def)

text \<open>
  Claim C3, as the code has it. Before the request settles the click increments the flash
  counter of the ad and leaves the view counts alone. When the request resolves with a count,
  every ad with the clicked id gets that count, also when it is lower than the count shown
  plus one; when the response carries no count, the ad gets the clicked ad's count plus one.
  The other ads and the order of the list are unchanged.
\<close>

theorem view_click_reconciled:
  "ads (click_started ad s) = ads s \<and>
   flashCounts (click_started ad s) (ad_id ad) =
     Some ((case flashCounts s (ad_id ad) of None \<Rightarrow> 0 | Some c \<Rightarrow> c) + 1) \<and>
   map ad_id (ads (post_settled ad r (click_started ad s))) = map ad_id (ads s) \<and>
   (\<forall>x \<in> set (ads (post_settled ad (Post_resolved (Some n)) (click_started ad s))).
      ad_id x = ad_id ad \<longrightarrow> ad_viewCount x = n) \<and>
   (\<forall>x \<in> set (ads (post_settled ad (Post_resolved None) (click_started ad s))).
      ad_id x = ad_id ad \<longrightarrow> ad_viewCount x = ad_viewCount ad + 1) \<and>
   (\<forall>i < length (ads s). ad_id (ads s ! i) \<noteq> ad_id ad \<longrightarrow>
      ads (post_settled ad r (click_started ad s)) ! i = ads s ! i)"
proof -
  have 1: "ads (click_started ad s) = ads s" by (simp add: click_started_def)
  have 2: "flashCounts (click_started ad s) (ad_id ad) =
     Some ((case flashCounts s (ad_id ad) of None \<Rightarrow> 0 | Some c \<Rightarrow> c) + 1)"
    by (simp add: click_started_def)
  have 3: "map ad_id (ads (post_settled ad r (click_started ad s))) = map ad_id (ads s)"
    by (cases r) (simp_all add: post_settled_def click_started_def comp_def Let_def)
  have 4: "\<forall>x \<in> set (ads (post_settled ad (Post_resolved (Some n)) (click_started ad s))).
      ad_id x = ad_id ad \<longrightarrow> ad_viewCount x = n"
    by (auto simp add: post_settled_def click_started_def Let_def)
  have 5: "\<forall>x \<in> set (ads (post_settled ad (Post_resolved None) (click_started ad s))).
      ad_id x = ad_id ad \<longrightarrow> ad_viewCount x = ad_viewCount ad + 1"
    by (auto simp add: post_settled_def click_started_def Let_def)
  have 6: "\<forall>i < length (ads s). ad_id (ads s ! i) \<noteq> ad_id ad \<longrightarrow>
      ads (post_settled ad r (click_started ad s)) ! i = ads s ! i"
    by (cases r) (simp_all add: post_settled_def click_started_def Let_def)
  from 1 2 3 4 5 6 show ?thesis by blast
qed

theorem view_click_reconciled_witness:
  "ad5 \<in> set (ads page5) \<and> (3::int) < 5 + 1 \<and>
   map ad_viewCount (ads (click_started ad5 page5)) = [5] \<and>
   flashCounts (click_started ad5 page5) 1 = Some 1 \<and>
   map ad_viewCount (ads (post_settled ad5 (Post_resolved (Some 3)) (click_started ad5 page5))) = [3] \<and>
   map ad_viewCount (ads (post_settled ad5 (Post_resolved None) (click_started ad5 page5))) = [6]"
proof -
  note t = view_click_reconciled [of ad5 page5 "Post_resolved (Some 3)" 3]
  have a: "ads (click_started ad5 page5) = [ad5]" using t by (simp add: page5_def)
  have f: "flashCounts (click_started ad5 page5) 1 = Some 1"
    using t by (simp add: page5_def ad5_def)
  have "ads (post_settled ad5 (Post_resolved (Some 3)) (click_started ad5 page5)) =
      [ad5\<lparr>ad_viewCount := 3\<rparr>]"
    by (simp add: post_settled_def click_started_def page5_def Let_def)
  moreover have "ads (post_settled ad5 (Post_resolved None) (click_started ad5 page5)) =
      [ad5\<lparr>ad_viewCount := 6\<rparr>]"
    by (simp add: post_settled_def click_started_def page5_def ad5_def Let_def)
  ultimately show ?thesis using a f by (simp add: page5_def ad5_def)
qed

text \<open>
  The claim C3 as written fails: right after the click the view count on the page is still
  the old one, not the old one plus one.
\<close>

theorem click_leaves_view_count:
  "map ad_viewCount (ads (click_started ad5 page5)) = [5] \<and>
   map ad_viewCount (ads (click_started ad5 page5)) \<noteq> [5 + 1]"
  by (simp add: click_started_def page5_def ad5_def)

section \<open>The transport effect: timers, fallback and teardown\<close>

lemma run_append: "run (xs @ ys) s = run ys (run xs s)"
  by (induction xs arbitrary: s) simp_all

lemma timer_inv_start: "timer_inv s \<Longrightarrow> timer_inv (startTelegramPolling s)"
  by (simp add: timer_inv_def startTelegramPolling_def split: option.splits)

lemma timer_inv_stop: "timer_inv s \<Longrightarrow> timer_inv (stopTelegramPolling s)"
  by (simp add: timer_inv_def stopTelegramPolling_def split: option.splits)

lemma timer_inv_step: "timer_inv s \<Longrightarrow> timer_inv (step e s)"
proof (cases e)
  case SignalR_connected
  assume i: "timer_inv s"
  then have "timer_inv (s\<lparr>console := console s @ [''SignalR connected, stop polling'']\<rparr>)"
    by (simp add: timer_inv_def)
  then have "timer_inv (stopTelegramPolling (s\<lparr>console := console s @ [''SignalR connected, stop polling'']\<rparr>))"
    by (rule timer_inv_stop)
  then show ?thesis using i SignalR_connected by (simp add: timer_inv_def)
next
  case SignalR_failed
  assume i: "timer_inv s"
  then have "timer_inv (s\<lparr>console := console s @ [''SignalR failed, enabling polling...'']\<rparr>)"
    by (simp add: timer_inv_def)
  then have "timer_inv (startTelegramPolling (s\<lparr>console := console s @ [''SignalR failed, enabling polling...'']\<rparr>))"
    by (rule timer_inv_start)
  then show ?thesis using i SignalR_failed by (simp add: timer_inv_def)
next
  case Conn_closed
  assume i: "timer_inv s"
  then have "timer_inv (s\<lparr>console := console s @ [''SignalR closed, start polling'']\<rparr>)"
    by (simp add: timer_inv_def)
  then have "timer_inv (startTelegramPolling (s\<lparr>console := console s @ [''SignalR closed, start polling'']\<rparr>))"
    by (rule timer_inv_start)
  then show ?thesis using i Conn_closed by simp
next
  case Cleanup
  assume i: "timer_inv s"
  then have "timer_inv (if unsub s then s\<lparr>handler_on := False\<rparr> else s)"
    by (simp add: timer_inv_def)
  then have "timer_inv (stopTelegramPolling (if unsub s then s\<lparr>handler_on := False\<rparr> else s))"
    by (rule timer_inv_stop)
  then show ?thesis using Cleanup by (simp add: cleanup_def)
qed (simp_all add: timer_inv_def)

lemma timer_inv_run: "timer_inv s \<Longrightarrow> timer_inv (run evs s)"
  by (induction evs arbitrary: s) (simp_all add: timer_inv_step)

lemma timer_inv_mount: "timer_inv mount"
  by (simp add: timer_inv_def mount_def)

lemma pc_start [simp]: "pc (startTelegramPolling s) = pc s"
  by (simp add: startTelegramPolling_def)

lemma pc_stop [simp]: "pc (stopTelegramPolling s) = pc s"
  by (simp add: stopTelegramPolling_def split: option.splits)

lemma flags_start [simp]:
  "onclose_set (startTelegramPolling s) = onclose_set s"
  "handler_on (startTelegramPolling s) = handler_on s"
  "unsub (startTelegramPolling s) = unsub s"
  "in_flight (startTelegramPolling s) = in_flight s"
  by (simp_all add: startTelegramPolling_def)

lemma flags_stop [simp]:
  "onclose_set (stopTelegramPolling s) = onclose_set s"
  "handler_on (stopTelegramPolling s) = handler_on s"
  "unsub (stopTelegramPolling s) = unsub s"
  "in_flight (stopTelegramPolling s) = in_flight s"
  by (simp_all add: stopTelegramPolling_def split: option.splits)

lemma setup_inv_step: "setup_inv s \<Longrightarrow> setup_inv (step e s)"
  by (cases e) (auto simp add: setup_inv_def cleanup_def)

lemma setup_inv_run: "setup_inv s \<Longrightarrow> setup_inv (run evs s)"
  by (induction evs arbitrary: s) (simp_all add: setup_inv_step)

lemma setup_inv_mount: "setup_inv mount"
  by (simp add: setup_inv_def mount_def)

lemma polling_start_id: "pollTimer s \<noteq> None \<Longrightarrow> startTelegramPolling s = s"
  by (simp add: startTelegramPolling_def)

lemma polling_step: "polling s \<Longrightarrow> e \<noteq> Cleanup \<Longrightarrow> polling (step e s)"
  by (cases e) (auto simp add: polling_def startTelegramPolling_def)

lemma polling_run: "polling s \<Longrightarrow> Cleanup \<notin> set evs \<Longrightarrow> polling (run evs s)"
proof (induction evs arbitrary: s)
  case Nil
  then show ?case by simp
next
  case (Cons e es)
  from Cons.prems have "e \<noteq> Cleanup" and r: "Cleanup \<notin> set es" by auto
  with Cons.prems have "polling (step e s)" by (simp add: polling_step)
  then have "polling (run es (step e s))" using r by (rule Cons.IH)
  then show ?case by simp
qed

lemma polling_after_failure:
  "pc s = Await_startSignalR \<Longrightarrow> timer_inv s \<Longrightarrow> polling (step SignalR_failed s)"
  by (auto simp add: polling_def startTelegramPolling_def timer_inv_def)

lemma polling_after_close:
  "onclose_set s \<Longrightarrow> setup_inv s \<Longrightarrow> timer_inv s \<Longrightarrow> polling (step Conn_closed s)"
  by (auto simp add: polling_def startTelegramPolling_def timer_inv_def setup_inv_def split: option.splits)

text \<open>
  Claim C8. \<open>startTelegramPolling\<close> returns the state unchanged when \<open>pollTimer\<close> is
  set, and in every run of the effect at most one interval timer is alive.
\<close>

theorem start_polling_idempotent:
  "(pollTimer s \<noteq> None \<longrightarrow> startTelegramPolling s = s) \<and>
   length (intervals (run evs mount)) \<le> 1"
proof -
  have "timer_inv (run evs mount)" using timer_inv_mount by (rule timer_inv_run)
  then have "length (intervals (run evs mount)) \<le> 1"
    by (simp add: timer_inv_def split: option.splits)
  then show ?thesis by (simp add: polling_start_id)
qed

theorem start_polling_idempotent_witness:
  "pollTimer (run [SignalR_connected, Conn_closed] mount) \<noteq> None \<and>
   startTelegramPolling (run [SignalR_connected, Conn_closed] mount) = run [SignalR_connected, Conn_closed] mount \<and>
   run [SignalR_connected, Conn_closed, Conn_closed] mount =
     (run [SignalR_connected, Conn_closed] mount)
       \<lparr>console := console (run [SignalR_connected, Conn_closed] mount) @ [''SignalR closed, start polling'']\<rparr> \<and>
   intervals (run [SignalR_connected, Conn_closed, Conn_closed] mount) = [1]"
proof -
  have h: "pollTimer (run [SignalR_connected, Conn_closed] mount) \<noteq> None"
    by (simp add: mount_def startTelegramPolling_def stopTelegramPolling_def)
  have "startTelegramPolling (run [SignalR_connected, Conn_closed] mount) = run [SignalR_connected, Conn_closed] mount"
    using h start_polling_idempotent [of "run [SignalR_connected, Conn_closed] mount" "[]"] by blast
  moreover have "run [SignalR_connected, Conn_closed, Conn_closed] mount =
     (run [SignalR_connected, Conn_closed] mount)
       \<lparr>console := console (run [SignalR_connected, Conn_closed] mount) @ [''SignalR closed, start polling'']\<rparr>"
    by (simp add: mount_def startTelegramPolling_def stopTelegramPolling_def)
  moreover have "intervals (run [SignalR_connected, Conn_closed, Conn_closed] mount) = [1]"
    by (simp add: mount_def startTelegramPolling_def stopTelegramPolling_def)
  ultimately show ?thesis using h by simp
qed

text \<open>
  Claim C5. When \<open>startSignalR()\<close> rejects while the effect awaits it, and when the
  connection reports that it closed after the \<open>onclose\<close> callback was registered, the
  polling timer is set in the same step, and it stays set through every later event other
  than the cleanup: ticks, fetches that resolve or reject, push events, further close
  notifications. A tick of a live timer starts a fetch. No event makes the effect fail.
\<close>

theorem polling_fallback:
  "(pc (run pre mount) = Await_startSignalR \<and> Cleanup \<notin> set post \<longrightarrow>
      pollTimer (run (pre @ SignalR_failed # post) mount) \<noteq> None \<and>
      intervals (run (pre @ SignalR_failed # post) mount) \<noteq> []) \<and>
   (onclose_set (run pre mount) \<and> Cleanup \<notin> set post \<longrightarrow>
      pollTimer (run (pre @ Conn_closed # post) mount) \<noteq> None \<and>
      intervals (run (pre @ Conn_closed # post) mount) \<noteq> []) \<and>
   (intervals s \<noteq> [] \<longrightarrow> in_flight (step Timer_tick s) = Suc (in_flight s))"
proof -
  let ?s = "run pre mount"
  have t: "timer_inv ?s" using timer_inv_mount by (rule timer_inv_run)
  have u: "setup_inv ?s" using setup_inv_mount by (rule setup_inv_run)
  have A: "polling (run (pre @ SignalR_failed # post) mount)"
    if "pc ?s = Await_startSignalR \<and> Cleanup \<notin> set post"
  proof -
    have "polling (step SignalR_failed ?s)" using that t by (simp add: polling_after_failure del: step.simps)
    then have "polling (run post (step SignalR_failed ?s))" using that by (simp add: polling_run)
    then show ?thesis by (simp only: run_append run.simps)
  qed
  have B: "polling (run (pre @ Conn_closed # post) mount)"
    if "onclose_set ?s \<and> Cleanup \<notin> set post"
  proof -
    have "polling (step Conn_closed ?s)" using that t u by (simp add: polling_after_close del: step.simps)
    then have "polling (run post (step Conn_closed ?s))" using that by (simp add: polling_run)
    then show ?thesis by (simp only: run_append run.simps)
  qed
  have C: "in_flight (step Timer_tick s) = Suc (in_flight s)" if "intervals s \<noteq> []"
    using that by simp
  from A B C show ?thesis unfolding polling_def by blast
qed

theorem polling_fallback_witness:
  "pc (run [Timer_tick] mount) = Await_startSignalR \<and>
   Cleanup \<notin> set [Timer_tick, Fetch_rejected, Timer_tick, Fetch_resolved None, Conn_closed] \<and>
   pollTimer (run ([Timer_tick] @ SignalR_failed #
      [Timer_tick, Fetch_rejected, Timer_tick, Fetch_resolved None, Conn_closed]) mount) \<noteq> None \<and>
   onclose_set (run [SignalR_connected, Invoke_settled] mount) \<and>
   Cleanup \<notin> set [Timer_tick, Fetch_rejected] \<and>
   intervals (run ([SignalR_connected, Invoke_settled] @ Conn_closed # [Timer_tick, Fetch_rejected]) mount) \<noteq> [] \<and>
   intervals (step SignalR_failed mount) \<noteq> [] \<and>
   in_flight (step Timer_tick (step SignalR_failed mount)) = Suc (in_flight (step SignalR_failed mount))"
proof -
  let ?post = "[Timer_tick, Fetch_rejected, Timer_tick, Fetch_resolved None, Conn_closed]"
  have h1: "pc (run [Timer_tick] mount) = Await_startSignalR" by (simp add: mount_def)
  have h2: "Cleanup \<notin> set ?post" by simp
  have h3: "onclose_set (run [SignalR_connected, Invoke_settled] mount)"
    by (simp add: mount_def)
  have h4: "Cleanup \<notin> set [Timer_tick, Fetch_rejected]" by simp
  have h5: "intervals (step SignalR_failed mount) \<noteq> []"
    by (simp add: mount_def startTelegramPolling_def)
  have c1: "pollTimer (run ([Timer_tick] @ SignalR_failed # ?post) mount) \<noteq> None"
    using h1 h2 polling_fallback [of "[Timer_tick]" ?post] by blast
  have c2: "intervals (run ([SignalR_connected, Invoke_settled] @ Conn_closed # [Timer_tick, Fetch_rejected]) mount) \<noteq> []"
    using h3 h4 polling_fallback [of "[SignalR_connected, Invoke_settled]" "[Timer_tick, Fetch_rejected]"] by blast
  have c3: "in_flight (step Timer_tick (step SignalR_failed mount)) = Suc (in_flight (step SignalR_failed mount))"
    using h5 polling_fallback [of "[]" "[]" "step SignalR_failed mount"] by blast
  from h1 h2 h3 h4 h5 c1 c2 c3 show ?thesis by blast
qed


lemma cleanup_clears:
  "timer_inv s \<Longrightarrow> pollTimer (cleanup s) = None \<and> intervals (cleanup s) = []"
  by (auto simp add: cleanup_def stopTelegramPolling_def timer_inv_def split: option.splits)


lemma in_flight_cleanup [simp]: "in_flight (cleanup s) = in_flight s"
  by (simp add: cleanup_def)











end
